theory Spec2Isabelle
  imports Complex_Main
begin

section \<open>Time codes: \<open>_format_time\<close>\<close>

text \<open>
  Python renders \<open>f'{h:02}'\<close> as the decimal digits of \<open>h\<close>, filled on the left with
  zeros up to a width of at least two; a longer number keeps all its digits, and a
  negative one keeps its sign in front of the zeros.
\<close>

definition digit_char :: "nat \<Rightarrow> char" where
  "digit_char d = ''0123456789'' ! d"

fun str_nat :: "nat \<Rightarrow> string" where
  "str_nat n = (if n < 10 then [digit_char n] else str_nat (n div 10) @ [digit_char (n mod 10)])"

declare str_nat.simps [simp del]

definition zfill :: "nat \<Rightarrow> string \<Rightarrow> string" where
  "zfill w s = replicate (w - length s) (CHR ''0'') @ s"

definition format_int :: "nat \<Rightarrow> int \<Rightarrow> string" where
  "format_int w i =
     (if i < 0 then CHR ''-'' # zfill (w - 1) (str_nat (nat (- i)))
      else zfill w (str_nat (nat i)))"

definition format_time :: "int \<Rightarrow> string" where
  "format_time millis =
     (let h = millis div (3600 * 10 ^ 3);
          m = millis div (60 * 10 ^ 3) mod 60;
          s = millis div 10 ^ 3 mod 60;
          ms = millis mod 10 ^ 3
      in format_int 2 h @ '':'' @ format_int 2 m @ '':'' @ format_int 2 s @ '','' @ format_int 3 ms)"

section \<open>Recognised words and subtitle lines\<close>

record duration =
  seconds :: int
  microseconds :: int

record word_info =
  word :: string
  start_time :: duration
  end_time :: duration

definition millis_of :: "duration \<Rightarrow> int" where
  "millis_of d = seconds d * 10 ^ 3 + microseconds d div 10 ^ 3"

text \<open>One call of \<open>_write_line\<close>: the words of the line, its index and its two times.\<close>

record subtitle_line =
  words :: "string list"
  index :: int
  start_ms :: int
  end_ms :: int

fun join_words :: "string list \<Rightarrow> string" where
  "join_words [] = []"
| "join_words [w] = w"
| "join_words (w # ws) = w @ '' '' @ join_words ws"

definition write_line :: "subtitle_line \<Rightarrow> string" where
  "write_line l =
     format_int 0 (index l) @ [CHR 0x0A]
     @ format_time (start_ms l) @ '' --> '' @ format_time (end_ms l) @ [CHR 0x0A]
     @ join_words (words l) @ [CHR 0x0A, CHR 0x0A]"

section \<open>The line segmenter\<close>

definition MAX_NUM_WORDS_IN_LINE :: nat where
  "MAX_NUM_WORDS_IN_LINE = 12"

definition LINE_INTERVAL :: int where
  "LINE_INTERVAL = 500"

text \<open>
  The local variables of the loop of \<open>transcribe\<close>, and in \<open>target\<close> the calls of
  \<open>_write_line\<close> made so far, in order.
\<close>

record seg_state =
  line :: "string list"
  line_index :: int
  line_start_time :: int
  line_end_time :: int
  target :: "subtitle_line list"

definition init_state :: seg_state where
  "init_state = \<lparr>line = [], line_index = 1, line_start_time = 0, line_end_time = 0, target = []\<rparr>"

definition pending_line :: "seg_state \<Rightarrow> subtitle_line" where
  "pending_line st =
     \<lparr>words = line st, index = line_index st,
      start_ms = line_start_time st, end_ms = line_end_time st\<rparr>"

text \<open>
  The test \<open>len(line) == _MAX_NUM_WORDS_IN_LINE or line and
  word_start_time - line_end_time >= _LINE_INTERVAL\<close>, its operands in the order in which
  Python evaluates them.
\<close>

definition flush_due :: "seg_state \<Rightarrow> int \<Rightarrow> bool" where
  "flush_due st word_start_time =
     (if length (line st) = MAX_NUM_WORDS_IN_LINE then True
      else if line st \<noteq> [] then word_start_time - line_end_time st \<ge> LINE_INTERVAL
      else False)"

definition step :: "seg_state \<Rightarrow> word_info \<Rightarrow> seg_state" where
  "step st word_data =
     (let word_start_time = millis_of (start_time word_data);
          word_end_time = millis_of (end_time word_data);
          st1 = (if flush_due st word_start_time
                 then st\<lparr>target := target st @ [pending_line st], line := [],
                         line_index := line_index st + 1,
                         line_start_time := word_start_time\<rparr>
                 else st)
      in st1\<lparr>line := line st1 @ [word word_data], line_end_time := word_end_time\<rparr>)"

fun words_loop :: "seg_state \<Rightarrow> word_info list \<Rightarrow> seg_state" where
  "words_loop st [] = st"
| "words_loop st (word_data # rest) = words_loop (step st word_data) rest"

definition finish :: "seg_state \<Rightarrow> subtitle_line list" where
  "finish st = (if line st \<noteq> [] then target st @ [pending_line st] else target st)"

definition segment :: "word_info list \<Rightarrow> subtitle_line list" where
  "segment ws = finish (words_loop init_state ws)"

definition mk_word :: "string \<Rightarrow> int \<Rightarrow> int \<Rightarrow> word_info" where
  "mk_word w s e =
     \<lparr>word = w,
      start_time = \<lparr>seconds = s div 1000, microseconds = (s mod 1000) * 1000\<rparr>,
      end_time = \<lparr>seconds = e div 1000, microseconds = (e mod 1000) * 1000\<rparr>\<rparr>"

section \<open>The remote services, as \<open>transcribe\<close> sees them\<close>

text \<open>
  The exceptions that can leave \<open>transcribe\<close>: \<open>open\<close> on a missing source file, a chunk
  that the transport fails to transmit, the division by a zero \<open>total_bytes\<close>, a source
  that \<open>wave.open\<close> rejects, a target that cannot be opened for writing, the error that
  \<open>operation.result()\<close> raises for a failed recognition, and \<open>alternatives[0]\<close> on a
  result without alternatives.
\<close>

datatype error =
    FileNotFoundError
  | TransportError
  | ZeroDivisionError
  | WaveError
  | OSError
  | GoogleAPICallError
  | IndexError

text \<open>The three attributes of \<open>ResumableUpload\<close> that the upload loop reads.\<close>

record resumable =
  bytes_uploaded :: nat
  total_bytes :: nat
  finished :: bool

text \<open>
  A recognition result is the list of its alternatives, an alternative the list of its
  words. The status of the long-running operation, as one call of \<open>operation.done()\<close>
  finds it: still running, with the \<open>progress_percent\<close> of its metadata, or done, with
  what \<open>operation.result()\<close> will then return or raise.
\<close>

type_synonym recognition_result = "word_info list list"

datatype op_outcome = Failed | Succeeded "recognition_result list"

datatype op_status = Running int | Done op_outcome

text \<open>
  What \<open>transcribe\<close> does to the world, in order: the calls to the remote services, the
  invocations of \<open>progress_callback\<close> with their two arguments, and the writes to the
  target file. Fractions are exact rationals; the rounding of Python's floats is not
  modelled, nor is the pause of \<open>time.sleep\<close>.
\<close>

datatype effect =
    Initiate nat
  | TransmitChunk
  | Progress string rat
  | Recognize
  | Poll
  | DeleteBlob
  | OpenTarget
  | WriteLine subtitle_line

text \<open>
  The environment of one call: the size of each existing file, the behaviour of
  \<open>transmit_next_chunk\<close> on the upload (\<open>None\<close> when it raises), the frame rate that
  \<open>wave.open\<close> reads from a file (\<open>None\<close> when it raises), the status that the
  \<open>n\<close>-th call of \<open>operation.done()\<close> finds, and whether the target can be opened.
  The clients are those that \<open>start\<close> has set up; \<open>resumable.initiate\<close>,
  \<open>long_running_recognize\<close>, \<open>operation.done()\<close> and \<open>blob.delete()\<close> are taken to
  return.
\<close>

record env =
  files :: "string \<rightharpoonup> nat"
  transmit :: "resumable \<rightharpoonup> resumable"
  frame_rate :: "string \<rightharpoonup> nat"
  operation :: "nat \<Rightarrow> op_status"
  target_writable :: "string \<Rightarrow> bool"

section \<open>The upload loop and the polling loop\<close>

partial_function (option) upload_loop ::
  "(resumable \<rightharpoonup> resumable) \<Rightarrow> resumable \<Rightarrow> effect list
     \<Rightarrow> (effect list \<times> (error + resumable)) option" where
  "upload_loop tx r tr =
     (if finished r then Some (tr, Inr r)
      else (case tx r of
              None \<Rightarrow> Some (tr @ [TransmitChunk], Inl TransportError)
            | Some r' \<Rightarrow>
                if total_bytes r' = 0 then Some (tr @ [TransmitChunk], Inl ZeroDivisionError)
                else upload_loop tx r'
                       (tr @ [TransmitChunk,
                              Progress ''upload''
                                (of_nat (bytes_uploaded r') / of_nat (total_bytes r'))])))"

partial_function (option) poll_loop ::
  "(nat \<Rightarrow> op_status) \<Rightarrow> nat \<Rightarrow> effect list \<Rightarrow> (effect list \<times> op_outcome) option" where
  "poll_loop op n tr =
     (case op n of
        Running progress_percent \<Rightarrow>
          poll_loop op (Suc n)
            (tr @ [Poll, Progress ''transcribe'' (of_int progress_percent * (1 / 100))])
      | Done outcome \<Rightarrow> Some (tr @ [Poll], outcome))"

section \<open>Writing the transcript\<close>

fun results_loop :: "seg_state \<Rightarrow> recognition_result list \<Rightarrow> seg_state \<times> error option" where
  "results_loop st [] = (st, None)"
| "results_loop st (res # rest) =
     (case res of
        [] \<Rightarrow> (st, Some IndexError)
      | alternative # _ \<Rightarrow> results_loop (words_loop st alternative) rest)"

definition write_results :: "recognition_result list \<Rightarrow> subtitle_line list \<times> error option" where
  "write_results results =
     (case results_loop init_state results of
        (st, Some e) \<Rightarrow> (target st, Some e)
      | (st, None) \<Rightarrow> (finish st, None))"

section \<open>\<open>transcribe\<close>\<close>

text \<open>
  The result is \<open>None\<close> when one of the two loops never ends; otherwise it is the effects
  of the call, in order, and the exception that ended it, if any. The upload, from
  \<open>resumable.initiate\<close> to the last \<open>progress_callback('upload', 1)\<close>, is the body of
  the first \<open>with\<close> block.
\<close>

definition upload_phase :: "(resumable \<rightharpoonup> resumable) \<Rightarrow> nat \<Rightarrow> (effect list \<times> error option) option" where
  "upload_phase tx source_size =
     (case upload_loop tx \<lparr>bytes_uploaded = 0, total_bytes = source_size, finished = False\<rparr>
             [Initiate source_size, Progress ''upload'' 0] of
        None \<Rightarrow> None
      | Some (tr, Inl err) \<Rightarrow> Some (tr, Some err)
      | Some (tr, Inr r) \<Rightarrow> Some (tr @ [Progress ''upload'' 1], None))"

definition transcribe :: "env \<Rightarrow> string \<Rightarrow> string \<Rightarrow> (effect list \<times> error option) option" where
  "transcribe e source_audio_path target_srt_path =
     (case files e source_audio_path of
        None \<Rightarrow> Some ([], Some FileNotFoundError)
      | Some source_size \<Rightarrow>
          (case upload_phase (transmit e) source_size of
             None \<Rightarrow> None
           | Some (tr1, Some err) \<Rightarrow> Some (tr1, Some err)
           | Some (tr1, None) \<Rightarrow>
               (case frame_rate e source_audio_path of
                  None \<Rightarrow> Some (tr1, Some WaveError)
                | Some rate \<Rightarrow>
                    (case poll_loop (operation e) 0 [Recognize] of
                       None \<Rightarrow> None
                     | Some (tr2, outcome) \<Rightarrow>
                         if \<not> target_writable e target_srt_path
                         then Some (tr1 @ tr2 @ [DeleteBlob], Some OSError)
                         else (case outcome of
                                 Failed \<Rightarrow>
                                   Some (tr1 @ tr2 @ [DeleteBlob, OpenTarget],
                                         Some GoogleAPICallError)
                               | Succeeded results \<Rightarrow>
                                   (case write_results results of
                                      (lines, err) \<Rightarrow>
                                        Some (tr1 @ tr2 @ [DeleteBlob, OpenTarget]
                                                @ map WriteLine lines,
                                              err)))))))"

text \<open>The fractions that the callback received for one phase, in order.\<close>

fun progress_of :: "string \<Rightarrow> effect list \<Rightarrow> rat list" where
  "progress_of phase [] = []"
| "progress_of phase (Progress p f # tr) =
     (if p = phase then f # progress_of phase tr else progress_of phase tr)"
| "progress_of phase (_ # tr) = progress_of phase tr"

text \<open>
  Modelled from the spec: the chunked-upload operation behind \<open>transmit_next_chunk\<close>
  (the class \<open>ResumableUpload\<close> of the transfer library, which is not part of the
  sources). \<open>total_bytes\<close> is fixed at initiation; every chunk carries the next
  \<open>chunk_size\<close> bytes of the source (262144 in \<open>transcribe\<close>), or what is left of it,
  and the upload is finished once all the bytes are there.
\<close>

definition CHUNK_SIZE :: nat where
  "CHUNK_SIZE = 2 ^ 18"

definition chunked_transmit :: "nat \<Rightarrow> resumable \<rightharpoonup> resumable" where
  "chunked_transmit chunk_size r =
     (let b = min (bytes_uploaded r + chunk_size) (total_bytes r)
      in Some (r\<lparr>bytes_uploaded := b, finished := (b = total_bytes r)\<rparr>))"

declare upload_loop.simps [code]

declare poll_loop.simps [code]

text \<open>
  What the callback is documented to receive: one of the two phases, and with it a
  fraction in [0, 1].
\<close>

definition known_phase :: "effect \<Rightarrow> bool" where
  "known_phase ev =
     (case ev of
        Progress phase f \<Rightarrow> phase = ''upload'' \<or> phase = ''transcribe''
      | _ \<Rightarrow> True)"

definition good_event :: "effect \<Rightarrow> bool" where
  "good_event ev =
     (case ev of
        Progress phase f \<Rightarrow> (phase = ''upload'' \<or> phase = ''transcribe'') \<and> 0 \<le> f \<and> f \<le> 1
      | _ \<Rightarrow> True)"

text \<open>Example environments: a source of 100 bytes, and a recognition polled twice.\<close>

definition example_env :: "int \<Rightarrow> op_outcome \<Rightarrow> env" where
  "example_env percent outcome =
     \<lparr>files = [''a.wav'' \<mapsto> 100],
      transmit = chunked_transmit CHUNK_SIZE,
      frame_rate = [''a.wav'' \<mapsto> 16000],
      operation = (\<lambda>n. if n = 0 then Running percent else Done outcome),
      target_writable = (\<lambda>_. True)\<rparr>"

section \<open>Invariants of the segmenter's loop\<close>

text \<open>The next index is one more than the number of lines written, which are numbered from 1.\<close>

definition index_inv :: "seg_state \<Rightarrow> bool" where
  "index_inv st \<longleftrightarrow>
     line_index st = int (length (target st)) + 1 \<and>
     map index (target st) = [1..int (length (target st))]"

text \<open>The pending line never exceeds the cap, and no written line is empty or exceeds it.\<close>

definition size_inv :: "seg_state \<Rightarrow> bool" where
  "size_inv st \<longleftrightarrow>
     length (line st) \<le> 12 \<and>
     list_all (\<lambda>l. 1 \<le> length (words l) \<and> length (words l) \<le> 12) (target st)"

section \<open>Properties of the time code\<close>

lemma digit_char_0: "digit_char 0 = CHR ''0''"
  by (simp add: digit_char_def)

lemma str_nat_small: "n < 10 \<Longrightarrow> str_nat n = [digit_char n]"
  by (simp add: str_nat.simps)

lemma str_nat_two: "10 \<le> n \<Longrightarrow> n < 100 \<Longrightarrow> str_nat n = [digit_char (n div 10), digit_char (n mod 10)]"
  by (subst str_nat.simps) (simp add: str_nat_small)

lemma str_nat_three:
  "100 \<le> n \<Longrightarrow> n < 1000 \<Longrightarrow>
   str_nat n = [digit_char (n div 100), digit_char (n div 10 mod 10), digit_char (n mod 10)]"
proof -
  assume a: "100 \<le> n" "n < 1000"
  then have b: "10 \<le> n div 10" "n div 10 < 100" by auto
  have "n div 10 div 10 = n div 100" by (simp add: div_mult2_eq)
  with a b show ?thesis
    by (subst str_nat.simps) (simp add: str_nat_two)
qed

lemma zfill2: "n < 100 \<Longrightarrow> zfill 2 (str_nat n) = [digit_char (n div 10), digit_char (n mod 10)]"
proof (cases "n < 10")
  case True
  then show ?thesis by (simp add: zfill_def str_nat_small digit_char_0 numeral_2_eq_2)
next
  case False
  assume "n < 100"
  with False show ?thesis by (simp add: zfill_def str_nat_two)
qed

lemma zfill3:
  assumes "n < 1000"
  shows "zfill 3 (str_nat n) = [digit_char (n div 100), digit_char (n div 10 mod 10), digit_char (n mod 10)]"
proof -
  consider "n < 10" | "10 \<le> n" "n < 100" | "100 \<le> n" using assms by linarith
  then show ?thesis
  proof cases
    case 1
    then show ?thesis by (simp add: zfill_def str_nat_small digit_char_0 numeral_3_eq_3)
  next
    case 2
    then show ?thesis by (simp add: zfill_def str_nat_two digit_char_0)
  next
    case 3
    with assms show ?thesis by (simp add: zfill_def str_nat_three)
  qed
qed



lemma format_int_nonneg: "0 \<le> i \<Longrightarrow> format_int w i = zfill w (str_nat (nat i))"
  by (simp add: format_int_def)

lemma format_int_2: "0 \<le> i \<Longrightarrow> i < 100 \<Longrightarrow>
    format_int 2 i = [digit_char (nat i div 10), digit_char (nat i mod 10)]"
  by (simp add: format_int_nonneg zfill2)

lemma format_int_3: "0 \<le> i \<Longrightarrow> i < 1000 \<Longrightarrow>
    format_int 3 i = [digit_char (nat i div 100), digit_char (nat i div 10 mod 10), digit_char (nat i mod 10)]"
  by (simp add: format_int_nonneg zfill3)

lemma format_time_shape:
  assumes "0 \<le> ms"
  shows "format_time ms =
     zfill 2 (str_nat (nat (ms div 3600000)))
     @ [CHR '':'',
        digit_char (nat (ms div 60000 mod 60) div 10), digit_char (nat (ms div 60000 mod 60) mod 10),
        CHR '':'',
        digit_char (nat (ms div 1000 mod 60) div 10), digit_char (nat (ms div 1000 mod 60) mod 10),
        CHR '','',
        digit_char (nat (ms mod 1000) div 100), digit_char (nat (ms mod 1000) div 10 mod 10),
        digit_char (nat (ms mod 1000) mod 10)]"
proof -
  have "0 \<le> ms div 3600000" using assms by (rule pos_imp_zdiv_nonneg_iff [THEN iffD2, rotated]) simp
  then have h: "format_int 2 (ms div 3600000) = zfill 2 (str_nat (nat (ms div 3600000)))"
    by (rule format_int_nonneg)
  have m: "format_int 2 (ms div 60000 mod 60)
      = [digit_char (nat (ms div 60000 mod 60) div 10), digit_char (nat (ms div 60000 mod 60) mod 10)]"
    by (rule format_int_2) simp_all
  have s: "format_int 2 (ms div 1000 mod 60)
      = [digit_char (nat (ms div 1000 mod 60) div 10), digit_char (nat (ms div 1000 mod 60) mod 10)]"
    by (rule format_int_2) simp_all
  have k: "format_int 3 (ms mod 1000)
      = [digit_char (nat (ms mod 1000) div 100), digit_char (nat (ms mod 1000) div 10 mod 10),
         digit_char (nat (ms mod 1000) mod 10)]"
    by (rule format_int_3) simp_all
  have "format_time ms = format_int 2 (ms div 3600000) @ '':'' @ format_int 2 (ms div 60000 mod 60)
      @ '':'' @ format_int 2 (ms div 1000 mod 60) @ '','' @ format_int 3 (ms mod 1000)"
    by (simp add: format_time_def)
  then show ?thesis
    by (simp only: h m s k append_Cons append_Nil)
qed


lemma hours_two_digits:
  assumes "0 \<le> ms" "ms < 360000000"
  shows "zfill 2 (str_nat (nat (ms div 3600000)))
          = [digit_char (nat (ms div 3600000) div 10), digit_char (nat (ms div 3600000) mod 10)]"
proof -
  have "ms div 3600000 < 100" using assms(2) by (simp add: div_less_iff_less_mult)
  then have "nat (ms div 3600000) < 100" by simp
  then show ?thesis by (rule zfill2)
qed

lemma format_time_0: "format_time 0 = ''00:00:00,000''"
  by (simp add: format_time_shape zfill2 digit_char_def)

lemma format_time_3661001: "format_time 3661001 = ''01:01:01,001''"
  by (simp add: format_time_shape zfill2 digit_char_def)

lemma format_time_59999: "format_time 59999 = ''00:00:59,999''"
  by (simp add: format_time_shape zfill2 digit_char_def)

lemma str_nat_100: "str_nat 100 = ''100''"
  by (simp add: str_nat.simps digit_char_def)

text \<open>
  Claim C6. For \<open>ms \<ge> 0\<close> the time code is the hours, filled with zeros to at
  least two digits, then \<open>:MM:SS,mmm\<close> with two digits of minutes, two of seconds and
  three of milliseconds, all from integer division and remainder by 3600000, 60000 and
  1000. Below 100 hours the hours take exactly two digits and the string is 12
  characters wide. The three examples of the specification hold.
\<close>

theorem format_time_layout:
  "0 \<le> ms \<Longrightarrow>
   format_time ms =
     zfill 2 (str_nat (nat (ms div 3600000)))
     @ [CHR '':'',
        digit_char (nat (ms div 60000 mod 60) div 10), digit_char (nat (ms div 60000 mod 60) mod 10),
        CHR '':'',
        digit_char (nat (ms div 1000 mod 60) div 10), digit_char (nat (ms div 1000 mod 60) mod 10),
        CHR '','',
        digit_char (nat (ms mod 1000) div 100), digit_char (nat (ms mod 1000) div 10 mod 10),
        digit_char (nat (ms mod 1000) mod 10)]
   \<and> (ms < 360000000 \<longrightarrow>
        zfill 2 (str_nat (nat (ms div 3600000)))
          = [digit_char (nat (ms div 3600000) div 10), digit_char (nat (ms div 3600000) mod 10)]
        \<and> length (format_time ms) = 12)
   \<and> format_time 0 = ''00:00:00,000''
   \<and> format_time 3661001 = ''01:01:01,001''
   \<and> format_time 59999 = ''00:00:59,999''"
proof -
  assume nn: "0 \<le> ms"
  note shape = format_time_shape [OF nn]
  have len: "length (format_time ms) = 12" if "ms < 360000000"
    by (simp only: shape hours_two_digits [OF nn that]) simp
  show ?thesis
    using shape hours_two_digits [OF nn] len format_time_0 format_time_3661001 format_time_59999
    by blast
qed

theorem format_time_layout_witness:
  "format_time 86399999 = ''23:59:59,999'' \<and> length (format_time 86399999) = 12"
proof -
  have "(0::int) \<le> 86399999" by simp
  from format_time_layout [OF this] show ?thesis
    by (simp add: digit_char_def)
qed

text \<open>From 100 hours on the hours take more than two digits, and the string is wider.\<close>

theorem format_time_hundred_hours:
  "format_time 360000000 = ''100:00:00,000'' \<and> length (format_time 360000000) = 13"
  by (simp add: format_time_shape str_nat_100 zfill_def digit_char_def)

section \<open>Properties of the segmenter\<close>

lemmas seg_defs = step_def flush_due_def pending_line_def MAX_NUM_WORDS_IN_LINE_def LINE_INTERVAL_def

lemma words_loop_snoc: "words_loop st (pre @ [w]) = step (words_loop st pre) w"
  by (induction pre arbitrary: st) simp_all

lemma step_flush:
  "flush_due st (millis_of (start_time w)) \<Longrightarrow>
   step st w = st\<lparr>target := target st @ [pending_line st], line := [word w],
                 line_index := line_index st + 1,
                 line_start_time := millis_of (start_time w),
                 line_end_time := millis_of (end_time w)\<rparr>"
  by (simp add: step_def)

lemma step_keep:
  "\<not> flush_due st (millis_of (start_time w)) \<Longrightarrow>
   step st w = st\<lparr>line := line st @ [word w], line_end_time := millis_of (end_time w)\<rparr>"
  by (simp add: step_def)

lemma flush_due_iff:
  "flush_due st t \<longleftrightarrow>
   length (line st) = 12 \<or> (line st \<noteq> [] \<and> t - line_end_time st \<ge> 500)"
  by (simp add: flush_due_def MAX_NUM_WORDS_IN_LINE_def LINE_INTERVAL_def)

lemma segment_Nil: "segment [] = []"
  by (simp add: segment_def finish_def init_state_def)


lemma line_step_nonempty: "line (step st w) \<noteq> []"
  by (simp add: step_def Let_def)

lemma line_loop_nonempty: "ws \<noteq> [] \<Longrightarrow> line (words_loop st ws) \<noteq> []"
  by (cases ws rule: rev_cases) (simp_all add: words_loop_snoc line_step_nonempty)

lemma line_end_step: "line_end_time (step st w) = millis_of (end_time w)"
  by (simp add: step_def Let_def)

text \<open>The line's end is the end of the word appended last.\<close>

lemma line_end_last:
  "pre \<noteq> [] \<Longrightarrow> line_end_time (words_loop st pre) = millis_of (end_time (last pre))"
  by (cases pre rule: rev_cases) (simp_all add: words_loop_snoc line_end_step)

lemma line_empty_iff: "line (words_loop init_state pre) = [] \<longleftrightarrow> pre = []"
  using line_loop_nonempty [of pre init_state] by (auto simp add: init_state_def)

text \<open>The pending line holds the last words of the stream read so far.\<close>

lemma line_suffix_step:
  assumes "line st = map word (drop (length pre - length (line st)) pre)"
    and "length (line st) \<le> length pre"
  shows "line (step st w)
           = map word (drop (length (pre @ [w]) - length (line (step st w))) (pre @ [w]))
         \<and> length (line (step st w)) \<le> length (pre @ [w])"
proof (cases "flush_due st (millis_of (start_time w))")
  case True
  then show ?thesis by (simp add: step_flush)
next
  case False
  have "Suc (length pre) - Suc (length (line st)) = length pre - length (line st)" by simp
  with False assms show ?thesis by (simp add: step_keep)
qed

lemma line_suffix:
  "line (words_loop init_state pre)
     = map word (drop (length pre - length (line (words_loop init_state pre))) pre)
   \<and> length (line (words_loop init_state pre)) \<le> length pre"
proof (induction pre rule: rev_induct)
  case Nil
  then show ?case by (simp add: init_state_def)
next
  case (snoc w pre)
  from line_suffix_step [OF conjunct1 [OF snoc] conjunct2 [OF snoc], of w]
  show ?case by (simp only: words_loop_snoc)
qed

text \<open>
  Claim C1. Let \<open>pre\<close> be the words read so far and \<open>w\<close> the next one. The pending
  line is empty only before the first word; it holds the last words of \<open>pre\<close>, and its
  end is the end of the last word of \<open>pre\<close>. Before appending \<open>w\<close>, the loop writes the
  pending line exactly when that line already holds 12 words, or \<open>pre\<close> is not empty
  and \<open>w\<close> starts 500 ms or more after the end of the last word of \<open>pre\<close>; a gap of
  exactly 500 ms splits. Otherwise \<open>w\<close> joins the pending line. In both cases the line's
  end becomes the end of \<open>w\<close>. When the words are exhausted a pending line that is not
  empty is written as the last one, and no words give no lines.
\<close>

theorem segmenter_flush_rule:
  "(let st = words_loop init_state pre;
        st' = words_loop init_state (pre @ [w]);
        gap = millis_of (start_time w) - millis_of (end_time (last pre))
    in (line st = [] \<longleftrightarrow> pre = [])
       \<and> line st = map word (drop (length pre - length (line st)) pre)
       \<and> (pre \<noteq> [] \<longrightarrow> line_end_time st = millis_of (end_time (last pre)))
       \<and> (if length (line st) = 12 \<or> (pre \<noteq> [] \<and> gap \<ge> 500)
           then target st' = target st @ [pending_line st] \<and> line st' = [word w]
           else target st' = target st \<and> line st' = line st @ [word w])
       \<and> (pre \<noteq> [] \<and> gap = 500 \<longrightarrow> target st' = target st @ [pending_line st])
       \<and> line_end_time st' = millis_of (end_time w)
       \<and> segment (pre @ [w]) = target st' @ [pending_line st']
       \<and> segment pre = (if pre \<noteq> [] then target st @ [pending_line st] else []))
   \<and> segment [] = []"
proof -
  let ?st = "words_loop init_state pre"
  let ?t = "millis_of (start_time w)"
  let ?st' = "step ?st w"
  let ?gap = "?t - millis_of (end_time (last pre))"
  have snoc: "words_loop init_state (pre @ [w]) = ?st'" by (rule words_loop_snoc)
  have ne: "line ?st' \<noteq> []" by (rule line_step_nonempty)
  have emp: "line ?st = [] \<longleftrightarrow> pre = []" by (rule line_empty_iff)
  have suf: "line ?st = map word (drop (length pre - length (line ?st)) pre)"
    using line_suffix [of pre] by blast
  have le: "line_end_time ?st = millis_of (end_time (last pre))" if "pre \<noteq> []"
    using that by (rule line_end_last)
  have due: "flush_due ?st ?t \<longleftrightarrow> length (line ?st) = 12 \<or> (pre \<noteq> [] \<and> ?gap \<ge> 500)"
  proof (cases "pre = []")
    case True
    then show ?thesis using emp by (simp add: flush_due_iff)
  next
    case False
    then show ?thesis using emp le [OF False] by (simp add: flush_due_iff)
  qed
  have rule: "if length (line ?st) = 12 \<or> (pre \<noteq> [] \<and> ?gap \<ge> 500)
        then target ?st' = target ?st @ [pending_line ?st] \<and> line ?st' = [word w]
        else target ?st' = target ?st \<and> line ?st' = line ?st @ [word w]"
  proof (cases "flush_due ?st ?t")
    case True
    with due show ?thesis by (simp add: step_flush)
  next
    case False
    with due show ?thesis by (simp add: step_keep)
  qed
  have exact: "target ?st' = target ?st @ [pending_line ?st]" if "pre \<noteq> [] \<and> ?gap = 500"
  proof -
    from that due have "flush_due ?st ?t" by simp
    then show ?thesis by (simp add: step_flush)
  qed
  have fin': "finish ?st' = target ?st' @ [pending_line ?st']"
    using ne by (simp add: finish_def)
  have fin: "finish ?st = (if pre \<noteq> [] then target ?st @ [pending_line ?st] else [])"
  proof (cases "pre = []")
    case True
    then show ?thesis by (simp add: finish_def init_state_def)
  next
    case False
    then show ?thesis using emp by (simp add: finish_def)
  qed
  have body: "(line ?st = [] \<longleftrightarrow> pre = [])
       \<and> line ?st = map word (drop (length pre - length (line ?st)) pre)
       \<and> (pre \<noteq> [] \<longrightarrow> line_end_time ?st = millis_of (end_time (last pre)))
       \<and> (if length (line ?st) = 12 \<or> (pre \<noteq> [] \<and> ?gap \<ge> 500)
           then target ?st' = target ?st @ [pending_line ?st] \<and> line ?st' = [word w]
           else target ?st' = target ?st \<and> line ?st' = line ?st @ [word w])
       \<and> (pre \<noteq> [] \<and> ?gap = 500 \<longrightarrow> target ?st' = target ?st @ [pending_line ?st])
       \<and> line_end_time ?st' = millis_of (end_time w)
       \<and> finish ?st' = target ?st' @ [pending_line ?st']
       \<and> finish ?st = (if pre \<noteq> [] then target ?st @ [pending_line ?st] else [])"
    using emp suf le rule exact line_end_step [of ?st w] fin' fin by blast
  show ?thesis
    unfolding Let_def segment_def snoc
    by (rule conjI [OF body segment_Nil [unfolded segment_def]])
qed

text \<open>
  Two streams that differ in the start of their third word: 400 ms after the end of the
  second word it joins the line, 500 ms after it it starts a new one.
\<close>

theorem segmenter_flush_rule_witness:
  "segment [mk_word ''a'' 0 100, mk_word ''b'' 150 400, mk_word ''c'' 800 900]
     = [\<lparr>words = [''a'', ''b'', ''c''], index = 1, start_ms = 0, end_ms = 900\<rparr>]
   \<and> segment [mk_word ''a'' 0 100, mk_word ''b'' 150 400, mk_word ''c'' 900 950]
     = [\<lparr>words = [''a'', ''b''], index = 1, start_ms = 0, end_ms = 400\<rparr>,
        \<lparr>words = [''c''], index = 2, start_ms = 900, end_ms = 950\<rparr>]"
proof -
  let ?pre = "[mk_word ''a'' 0 100, mk_word ''b'' 150 400]"
  let ?c = "mk_word ''c'' 800 900" and ?d = "mk_word ''c'' 900 950"
  from segmenter_flush_rule [of ?pre ?c, unfolded Let_def]
  have "segment (?pre @ [?c])
      = target (words_loop init_state (?pre @ [?c]))
        @ [pending_line (words_loop init_state (?pre @ [?c]))]"
    by blast
  then have one: "segment [mk_word ''a'' 0 100, mk_word ''b'' 150 400, mk_word ''c'' 800 900]
     = [\<lparr>words = [''a'', ''b'', ''c''], index = 1, start_ms = 0, end_ms = 900\<rparr>]"
    by (simp add: seg_defs init_state_def mk_word_def millis_of_def)
  from segmenter_flush_rule [of ?pre ?d, unfolded Let_def]
  have "segment (?pre @ [?d])
      = target (words_loop init_state (?pre @ [?d]))
        @ [pending_line (words_loop init_state (?pre @ [?d]))]"
    by blast
  then have two: "segment [mk_word ''a'' 0 100, mk_word ''b'' 150 400, mk_word ''c'' 900 950]
     = [\<lparr>words = [''a'', ''b''], index = 1, start_ms = 0, end_ms = 400\<rparr>,
        \<lparr>words = [''c''], index = 2, start_ms = 900, end_ms = 950\<rparr>]"
    by (simp add: seg_defs init_state_def mk_word_def millis_of_def)
  from one two show ?thesis by (rule conjI)
qed

subsection \<open>Times of a line\<close>

text \<open>
  Claim C2. The start of a line should be the start of its first word. The loop sets
  \<open>line_start_time\<close> only when it writes a line, so the first line of a transcript
  keeps the initial 0: a transcript of the one word \<open>Hi\<close>, spoken from 1000 ms to
  1300 ms, is written as a line that starts at 0 ms.
\<close>

theorem first_line_starts_at_zero:
  "segment [mk_word ''Hi'' 1000 1300]
     = [\<lparr>words = [''Hi''], index = 1, start_ms = 0, end_ms = 1300\<rparr>]
   \<and> millis_of (start_time (mk_word ''Hi'' 1000 1300)) = 1000"
  by (simp add: segment_def finish_def seg_defs init_state_def mk_word_def millis_of_def)

subsection \<open>Indices\<close>

lemma index_inv_init: "index_inv init_state"
  by (simp add: index_inv_def init_state_def)

lemma upto_snoc: "[1..1 + int n] = [1..int n] @ [int n + 1]"
  by (simp add: upto_rec2)

lemma index_inv_step: "index_inv st \<Longrightarrow> index_inv (step st w)"
  by (cases "flush_due st (millis_of (start_time w))")
     (simp_all add: step_flush step_keep index_inv_def pending_line_def upto_snoc)

lemma index_inv_loop: "index_inv st \<Longrightarrow> index_inv (words_loop st ws)"
  by (induction ws arbitrary: st) (simp_all add: index_inv_step)


text \<open>
  Claim C8. The indices of the lines written are 1, 2, ..., N in this order, and a word
  stream that is not empty gives at least one line.
\<close>

theorem segment_indices:
  "map index (segment ws) = [1..int (length (segment ws))]
   \<and> (ws \<noteq> [] \<longrightarrow> segment ws \<noteq> [])"
proof -
  have inv: "index_inv (words_loop init_state ws)"
    by (rule index_inv_loop [OF index_inv_init])
  have "map index (segment ws) = [1..int (length (segment ws))]"
    using inv by (simp add: segment_def finish_def index_inv_def pending_line_def upto_snoc)
  moreover have "segment ws \<noteq> []" if "ws \<noteq> []"
    using line_loop_nonempty [OF that] by (simp add: segment_def finish_def)
  ultimately show ?thesis by blast
qed

theorem segment_indices_witness:
  "map index (segment [mk_word ''a'' 0 300, mk_word ''b'' 800 900]) = [1, 2]"
  using segment_indices [of "[mk_word ''a'' 0 300, mk_word ''b'' 800 900]"]
  by (simp add: segment_def finish_def seg_defs init_state_def mk_word_def millis_of_def Let_def upto_rec1)


subsection \<open>Line lengths\<close>

lemma size_inv_init: "size_inv init_state"
  by (simp add: size_inv_def init_state_def)

lemma size_inv_step: "size_inv st \<Longrightarrow> size_inv (step st w)"
  by (cases "flush_due st (millis_of (start_time w))")
     (auto simp add: step_flush step_keep size_inv_def pending_line_def flush_due_iff Suc_le_eq)

lemma size_inv_loop: "size_inv st \<Longrightarrow> size_inv (words_loop st ws)"
  by (induction ws arbitrary: st) (simp_all add: size_inv_step)

lemma segment_sizes:
  "list_all (\<lambda>l. 1 \<le> length (words l) \<and> length (words l) \<le> 12) (segment ws)"
  using size_inv_loop [OF size_inv_init, of ws]
  by (auto simp add: segment_def finish_def size_inv_def pending_line_def Suc_le_eq)


text \<open>
  Claim C9. Every line written holds at least 1 and at most 12 words. The count test
  comes first in the loop's condition: a pending line of 12 words is written whatever
  the gap to the next word is, as a line of exactly 12 words, and the next word starts
  a new line.
\<close>

theorem line_size_bounds:
  "(\<forall>l \<in> set (segment ws). 1 \<le> length (words l) \<and> length (words l) \<le> MAX_NUM_WORDS_IN_LINE)
   \<and> (length (line st) = MAX_NUM_WORDS_IN_LINE \<longrightarrow>
        flush_due st t
        \<and> target (step st w) = target st @ [pending_line st]
        \<and> length (words (pending_line st)) = MAX_NUM_WORDS_IN_LINE
        \<and> line (step st w) = [word w])"
proof -
  have a: "\<forall>l \<in> set (segment ws). 1 \<le> length (words l) \<and> length (words l) \<le> MAX_NUM_WORDS_IN_LINE"
    using segment_sizes [of ws] by (simp add: list_all_iff MAX_NUM_WORDS_IN_LINE_def)
  have b: "flush_due st t'" if "length (line st) = MAX_NUM_WORDS_IN_LINE" for t'
    using that by (simp add: flush_due_def)
  show ?thesis
    using a b by (simp add: step_flush pending_line_def)
qed

theorem line_size_bounds_witness:
  "map (\<lambda>l. length (words l))
     (segment (map (\<lambda>i. mk_word ''w'' (150 * i) (150 * i + 50)) [0, 1, 2, 3, 4, 5, 6, 7, 8, 9, 10, 11, 12]))
     = [12, 1]
   \<and> flush_due \<lparr>line = replicate 12 ''w'', line_index = 1, line_start_time = 0,
                 line_end_time = 1700, target = []\<rparr> 1800"
  using line_size_bounds
    [of "map (\<lambda>i. mk_word ''w'' (150 * i) (150 * i + 50)) [0, 1, 2, 3, 4, 5, 6, 7, 8, 9, 10, 11, 12]"
        "\<lparr>line = replicate 12 ''w'', line_index = 1, line_start_time = 0,
          line_end_time = 1700, target = []\<rparr>" 1800 "mk_word ''w'' 1800 1850"]
  by (simp add: segment_def finish_def seg_defs init_state_def mk_word_def millis_of_def)

subsection \<open>The words of all results\<close>

text \<open>
  When every result has an alternative, the nested loops of \<open>transcribe\<close> segment the
  words of the first alternatives, taken in order as one stream.
\<close>

lemma words_loop_append: "words_loop st (a @ b) = words_loop (words_loop st a) b"
  by (induction a arbitrary: st) simp_all

lemma results_loop_words:
  "\<forall>res \<in> set results. res \<noteq> [] \<Longrightarrow>
   results_loop st results = (words_loop st (concat (map hd results)), None)"
  by (induction st results rule: results_loop.induct)
     (auto simp add: words_loop_append split: list.splits)

lemma write_results_segment:
  "\<forall>res \<in> set results. res \<noteq> [] \<Longrightarrow>
   write_results results = (segment (concat (map hd results)), None)"
  by (simp add: write_results_def results_loop_words segment_def)

subsection \<open>The start of the opening line\<close>

text \<open>
  Whenever the first word of a transcript starts, the first line written starts at
  0 ms: \<open>line_start_time\<close> keeps its initial value until the first flush.
\<close>

lemma opening_start_step:
  assumes "if target st = [] then line_start_time st = 0 else start_ms (hd (target st)) = 0"
  shows "if target (step st w) = [] then line_start_time (step st w) = 0
         else start_ms (hd (target (step st w))) = 0"
  using assms
  by (cases "flush_due st (millis_of (start_time w))")
     (auto simp add: step_flush step_keep pending_line_def hd_append split: if_splits)

lemma opening_start_loop:
  "(if target st = [] then line_start_time st = 0 else start_ms (hd (target st)) = 0) \<Longrightarrow>
   (if target (words_loop st ws) = [] then line_start_time (words_loop st ws) = 0
    else start_ms (hd (target (words_loop st ws))) = 0)"
proof (induction ws arbitrary: st)
  case Nil
  then show ?case by simp
next
  case (Cons w ws)
  from Cons.IH [OF opening_start_step [OF Cons.prems]] show ?case by simp
qed

lemma opening_line_start: "ws \<noteq> [] \<Longrightarrow> start_ms (hd (segment ws)) = 0"
  using opening_start_loop [of init_state ws] line_loop_nonempty [of ws init_state]
  by (auto simp add: segment_def finish_def init_state_def pending_line_def split: if_splits)

section \<open>Properties of \<open>transcribe\<close>\<close>

subsection \<open>The two loops\<close>

lemma progress_of_append: "progress_of ph (a @ b) = progress_of ph a @ progress_of ph b"
  by (induction ph a rule: progress_of.induct) simp_all

lemma progress_of_WriteLine: "progress_of ph (map WriteLine ls) = []"
  by (induction ls) simp_all

lemma upload_loop_result:
  "upload_loop tx r tr = Some y \<Longrightarrow>
   (\<exists>evs. fst y = tr @ evs \<and>
      ((\<forall>r r'. tx r = Some r' \<longrightarrow> bytes_uploaded r' \<le> total_bytes r') \<longrightarrow> list_all good_event evs) \<and>
      list_all known_phase evs \<and>
      Recognize \<notin> set evs \<and> progress_of ''transcribe'' evs = []) \<and>
   (case snd y of Inl err \<Rightarrow> err = TransportError \<or> err = ZeroDivisionError | Inr r' \<Rightarrow> True)"
proof (induction tx r tr y rule: upload_loop.raw_induct [rotated 1, consumes 1, case_names step])
  case (step f tx r tr y)
  show ?case
  proof (cases "finished r")
    case True
    with step(2) show ?thesis by auto
  next
    case nf: False
    show ?thesis
    proof (cases "tx r")
      case None
      with nf step(2) show ?thesis by (auto simp add: good_event_def known_phase_def)
    next
      case (Some r')
      show ?thesis
      proof (cases "total_bytes r' = 0")
        case True
        with nf Some step(2) show ?thesis by (auto simp add: good_event_def known_phase_def)
      next
        case False
        let ?ev = "Progress ''upload'' (of_nat (bytes_uploaded r') / of_nat (total_bytes r'))"
        from nf Some False step(2) have "f tx r' (tr @ [TransmitChunk, ?ev]) = Some y" by simp
        from step(1) [OF this] obtain evs where
          e: "fst y = (tr @ [TransmitChunk, ?ev]) @ evs"
          and g: "(\<forall>r r'. tx r = Some r' \<longrightarrow> bytes_uploaded r' \<le> total_bytes r') \<longrightarrow> list_all good_event evs"
          and k: "list_all known_phase evs"
          and n: "Recognize \<notin> set evs" "progress_of ''transcribe'' evs = []"
          and s: "(case snd y of Inl err \<Rightarrow> err = TransportError \<or> err = ZeroDivisionError | Inr r' \<Rightarrow> True)"
          by blast
        have good: "good_event ?ev" if "bytes_uploaded r' \<le> total_bytes r'"
          using that False by (simp add: good_event_def)
        have "fst y = tr @ ([TransmitChunk, ?ev] @ evs)" using e by simp
        moreover have "(\<forall>r r'. tx r = Some r' \<longrightarrow> bytes_uploaded r' \<le> total_bytes r')
            \<longrightarrow> list_all good_event ([TransmitChunk, ?ev] @ evs)"
          using g good Some by (auto simp add: good_event_def)
        moreover have "list_all known_phase ([TransmitChunk, ?ev] @ evs)"
          using k by (simp add: known_phase_def)
        moreover have "Recognize \<notin> set ([TransmitChunk, ?ev] @ evs)" using n by simp
        moreover have "progress_of ''transcribe'' ([TransmitChunk, ?ev] @ evs) = []" using n by simp
        ultimately show ?thesis using s by blast
      qed
    qed
  qed
qed

lemma poll_loop_result:
  "poll_loop op n tr = Some y \<Longrightarrow>
   \<exists>evs. fst y = tr @ evs @ [Poll] \<and>
      ((\<forall>n p. op n = Running p \<longrightarrow> 0 \<le> p \<and> p \<le> 100) \<longrightarrow> list_all good_event evs) \<and>
      list_all known_phase evs \<and>
      progress_of ''upload'' evs = []"
proof (induction op n tr y rule: poll_loop.raw_induct [rotated 1, consumes 1, case_names step])
  case (step f op n tr y)
  show ?case
  proof (cases "op n")
    case (Running p)
    let ?ev = "Progress ''transcribe'' (of_int p * (1 / 100))"
    from Running step(2) have "f op (Suc n) (tr @ [Poll, ?ev]) = Some y" by simp
    from step(1) [OF this] obtain evs where
      e: "fst y = (tr @ [Poll, ?ev]) @ evs @ [Poll]"
      and g: "(\<forall>n p. op n = Running p \<longrightarrow> 0 \<le> p \<and> p \<le> 100) \<longrightarrow> list_all good_event evs"
      and k: "list_all known_phase evs"
      and u: "progress_of ''upload'' evs = []"
      by blast
    have good: "good_event ?ev" if "0 \<le> p" "p \<le> 100"
      using that by (simp add: good_event_def)
    have "fst y = tr @ ([Poll, ?ev] @ evs) @ [Poll]" using e by simp
    moreover have "(\<forall>n p. op n = Running p \<longrightarrow> 0 \<le> p \<and> p \<le> 100)
        \<longrightarrow> list_all good_event ([Poll, ?ev] @ evs)"
      using g good Running by (auto simp add: good_event_def)
    moreover have "list_all known_phase ([Poll, ?ev] @ evs)"
      using k by (simp add: known_phase_def)
    moreover have "progress_of ''upload'' ([Poll, ?ev] @ evs) = []" using u by simp
    ultimately show ?thesis by blast
  next
    case (Done out)
    with step(2) show ?thesis by auto
  qed
qed

lemma poll_loop_run:
  "(\<forall>k<n. op (m + k) = Running (p (m + k))) \<Longrightarrow> op (m + n) = Done out \<Longrightarrow>
   poll_loop op m tr =
     Some (tr @ concat (map (\<lambda>k. [Poll, Progress ''transcribe'' (of_int (p k) * (1 / 100))]) [m..<m + n])
              @ [Poll], out)"
proof (induction n arbitrary: m tr)
  case 0
  then show ?case by (subst poll_loop.simps) simp
next
  case (Suc n)
  from Suc.prems(1) have here: "op m = Running (p m)" by (metis add.right_neutral zero_less_Suc)
  have rest: "\<forall>k<n. op (Suc m + k) = Running (p (Suc m + k))"
    using Suc.prems(1) by (metis Suc_less_eq add_Suc_shift)
  have last: "op (Suc m + n) = Done out" using Suc.prems(2) by simp
  have up: "[m..<m + Suc n] = m # [Suc m..<Suc m + n]" by (simp add: upt_conv_Cons)
  let ?g = "\<lambda>k. [Poll, Progress ''transcribe'' (of_int (p k) * (1 / 100))]"
  have "poll_loop op m tr = poll_loop op (Suc m) (tr @ ?g m)"
    by (subst poll_loop.simps) (simp add: here)
  also have "\<dots> = Some ((tr @ ?g m) @ concat (map ?g [Suc m..<Suc m + n]) @ [Poll], out)"
    by (rule Suc.IH [OF rest last])
  also have "(tr @ ?g m) @ concat (map ?g [Suc m..<Suc m + n]) @ [Poll]
      = tr @ concat (map ?g [m..<m + Suc n]) @ [Poll]"
    unfolding up by simp
  finally show ?case .
qed

subsection \<open>The documented transport\<close>

lemma chunks_left_step:
  fixes b c t :: nat
  assumes "0 < c" "b + c < t"
  shows "(t - b + c - 1) div c = Suc ((t - (b + c) + c - 1) div c)"
proof -
  define x where "x = t - (b + c) + c - 1"
  have e: "t - b + c - 1 = x + c" using assms by (simp add: x_def)
  have "(x + c) div c = Suc (x div c)" using assms(1) by simp
  then show ?thesis unfolding e x_def .
qed

lemma chunks_left_last:
  fixes b c t :: nat
  assumes "0 < c" "b < t" "t \<le> b + c"
  shows "(t - b + c - 1) div c = 1"
proof -
  have "c \<le> t - b + c - 1" "t - b + c - 1 < 2 * c" using assms by simp_all
  then show ?thesis
    by (metis One_nat_def div_nat_eqI mult.commute mult_2 nat_mult_1 mult_Suc)
qed

lemma chunked_run:
  assumes c: "0 < c"
  shows "bytes_uploaded r < total_bytes r \<Longrightarrow> \<not> finished r \<Longrightarrow>
    n = (total_bytes r - bytes_uploaded r + c - 1) div c \<Longrightarrow>
    upload_loop (chunked_transmit c) r tr =
      Some (tr @ concat (map (\<lambda>k. [TransmitChunk,
                                    Progress ''upload''
                                      (of_nat (min (bytes_uploaded r + k * c) (total_bytes r))
                                       / of_nat (total_bytes r))]) [1..<Suc n]),
            Inr (r\<lparr>bytes_uploaded := total_bytes r, finished := True\<rparr>))"
proof (induction n arbitrary: r tr)
  case 0
  have "(total_bytes r - bytes_uploaded r + c - 1) div c \<noteq> 0"
    using 0(1) c by (simp add: div_eq_0_iff)
  with 0(3) show ?case by simp
next
  case (Suc n)
  let ?b = "bytes_uploaded r" and ?t = "total_bytes r"
  let ?G = "\<lambda>x. [TransmitChunk, Progress ''upload'' (of_nat (min x ?t) / of_nat ?t)]"
  let ?r' = "r\<lparr>bytes_uploaded := min (?b + c) ?t, finished := (min (?b + c) ?t = ?t)\<rparr>"
  have tx: "chunked_transmit c r = Some ?r'" by (simp add: chunked_transmit_def Let_def)
  have tpos: "?t \<noteq> 0" using Suc.prems(1) by simp
  have unfold: "upload_loop (chunked_transmit c) r tr
      = upload_loop (chunked_transmit c) ?r' (tr @ ?G (?b + 1 * c))"
    using Suc.prems(2) tpos by (subst upload_loop.simps) (simp add: tx)
  show ?case
  proof (cases "?t \<le> ?b + c")
    case True
    then have fin: "finished ?r'" and eq: "?r' = r\<lparr>bytes_uploaded := ?t, finished := True\<rparr>"
      by simp_all
    have "Suc n = 1" using Suc.prems(3) chunks_left_last [OF c Suc.prems(1) True] by simp
    then have n0: "n = 0" by simp
    have "upload_loop (chunked_transmit c) ?r' (tr @ ?G (?b + 1 * c))
        = Some (tr @ ?G (?b + 1 * c), Inr ?r')"
      using fin by (subst upload_loop.simps) simp
    then show ?thesis
      unfolding unfold n0 using eq by simp
  next
    case False
    then have lt: "?b + c < ?t" by simp
    have r'eq: "?r' = r\<lparr>bytes_uploaded := ?b + c, finished := False\<rparr>" using lt by simp
    have n: "n = (total_bytes ?r' - bytes_uploaded ?r' + c - 1) div c"
      using Suc.prems(3) chunks_left_step [OF c lt] lt by simp
    have p1: "bytes_uploaded ?r' < total_bytes ?r'" using lt by simp
    have p2: "\<not> finished ?r'" using lt by simp
    note ih = Suc.IH [OF p1 p2 n, of "tr @ ?G (?b + 1 * c)"]
    have idx: "[1..<Suc (Suc n)] = 1 # map Suc [1..<Suc n]"
      by (simp add: upt_conv_Cons map_Suc_upt del: upt_Suc)
    have shift: "concat (map (\<lambda>k. ?G (?b + k * c)) [1..<Suc (Suc n)])
        = ?G (?b + 1 * c) @ concat (map (\<lambda>k. ?G (?b + c + k * c)) [1..<Suc n])"
      unfolding idx by (simp add: comp_def add.assoc del: upt_Suc)
    show ?thesis
      unfolding unfold using ih lt
      by (simp only: shift) (simp add: min_absorb1 del: upt_Suc)
  qed
qed

subsection \<open>The phases of a call\<close>

lemma upload_phase_result:
  assumes "upload_phase tx source_size = Some (tr, res)"
  shows "\<exists>evs. (tr = [Initiate source_size, Progress ''upload'' 0] @ evs @ [Progress ''upload'' 1] \<and> res = None
            \<or> tr = [Initiate source_size, Progress ''upload'' 0] @ evs
              \<and> (res = Some TransportError \<or> res = Some ZeroDivisionError)) \<and>
          ((\<forall>r r'. tx r = Some r' \<longrightarrow> bytes_uploaded r' \<le> total_bytes r') \<longrightarrow> list_all good_event evs) \<and>
          list_all known_phase evs \<and> Recognize \<notin> set evs \<and> progress_of ''transcribe'' evs = []"
proof -
  let ?r0 = "\<lparr>bytes_uploaded = 0, total_bytes = source_size, finished = False\<rparr>"
  let ?tr0 = "[Initiate source_size, Progress ''upload'' 0]"
  from assms obtain y where y: "upload_loop tx ?r0 ?tr0 = Some y"
    by (auto simp add: upload_phase_def split: option.splits)
  from upload_loop_result [OF y] obtain evs where
    e: "fst y = ?tr0 @ evs"
    and g: "(\<forall>r r'. tx r = Some r' \<longrightarrow> bytes_uploaded r' \<le> total_bytes r') \<longrightarrow> list_all good_event evs"
    and k: "list_all known_phase evs"
    and n: "Recognize \<notin> set evs" "progress_of ''transcribe'' evs = []"
    and s: "(case snd y of Inl err \<Rightarrow> err = TransportError \<or> err = ZeroDivisionError | Inr r' \<Rightarrow> True)"
    by blast
  have "tr = ?tr0 @ evs @ [Progress ''upload'' 1] \<and> res = None
      \<or> tr = ?tr0 @ evs \<and> (res = Some TransportError \<or> res = Some ZeroDivisionError)"
    using assms y e s by (cases y; cases "snd y") (auto simp add: upload_phase_def)
  with g k n show ?thesis by blast
qed

lemma results_loop_error: "results_loop st rs = (st', Some err) \<Longrightarrow> err = IndexError"
  by (induction st rs rule: results_loop.induct) (auto split: list.splits)

lemma write_results_error: "write_results results = (ls, Some err) \<Longrightarrow> err = IndexError"
  by (auto simp add: write_results_def split: prod.splits option.splits dest: results_loop_error)

lemma transcribe_cases [consumes 1, case_names missing upload_failed bad_wave unwritable failed succeeded]:
  assumes "transcribe e src tgt = Some (tr, res)"
  obtains
    (missing) "files e src = None" "tr = []" "res = Some FileNotFoundError"
  | (upload_failed) source_size err where
      "files e src = Some source_size"
      "upload_phase (transmit e) source_size = Some (tr, Some err)" "res = Some err"
  | (bad_wave) source_size where
      "files e src = Some source_size"
      "upload_phase (transmit e) source_size = Some (tr, None)"
      "frame_rate e src = None" "res = Some WaveError"
  | (unwritable) source_size tr1 tr2 outcome where
      "files e src = Some source_size"
      "upload_phase (transmit e) source_size = Some (tr1, None)"
      "poll_loop (operation e) 0 [Recognize] = Some (tr2, outcome)"
      "\<not> target_writable e tgt" "tr = tr1 @ tr2 @ [DeleteBlob]" "res = Some OSError"
  | (failed) source_size tr1 tr2 where
      "files e src = Some source_size"
      "upload_phase (transmit e) source_size = Some (tr1, None)"
      "poll_loop (operation e) 0 [Recognize] = Some (tr2, Failed)"
      "target_writable e tgt" "tr = tr1 @ tr2 @ [DeleteBlob, OpenTarget]"
      "res = Some GoogleAPICallError"
  | (succeeded) source_size tr1 tr2 results ls where
      "files e src = Some source_size"
      "upload_phase (transmit e) source_size = Some (tr1, None)"
      "poll_loop (operation e) 0 [Recognize] = Some (tr2, Succeeded results)"
      "target_writable e tgt" "write_results results = (ls, res)"
      "tr = tr1 @ tr2 @ [DeleteBlob, OpenTarget] @ map WriteLine ls"
  using assms unfolding transcribe_def
  by (auto split: option.splits prod.splits if_splits op_outcome.splits)



lemma progress_of_chunks:
  "progress_of ''upload''
     (concat (map (\<lambda>k. [TransmitChunk, Progress ''upload'' (g k)]) ks)) = map g ks"
  by (induction ks) simp_all

lemma poll_loop_from_start:
  assumes "\<forall>k<n. op k = Running (p k)" "op n = Done out"
  shows "poll_loop op 0 tr =
     Some (tr @ concat (map (\<lambda>k. [Poll, Progress ''transcribe'' (of_int (p k) * (1 / 100))]) [0..<n])
              @ [Poll], out)"
  using poll_loop_run [of n op 0 p out tr] assms by simp

subsection \<open>A missing source\<close>

text \<open>
  Claim C10. When the source path does not exist, \<open>open\<close> raises before
  \<open>resumable.initiate\<close>: the call ends with \<open>FileNotFoundError\<close> and has had no
  effect at all, so no upload was initiated, no recognition requested, and the callback
  was never invoked.
\<close>

theorem missing_source_fails_first:
  "files e source_audio_path = None \<Longrightarrow>
   transcribe e source_audio_path target_srt_path = Some ([], Some FileNotFoundError)"
  by (simp add: transcribe_def)

theorem missing_source_fails_first_witness:
  "transcribe (example_env 50 Failed) ''b.wav'' ''b.srt'' = Some ([], Some FileNotFoundError)"
proof -
  have "files (example_env 50 Failed) ''b.wav'' = None" by (simp add: example_env_def)
  then show ?thesis by (rule missing_source_fails_first)
qed

subsection \<open>A failed recognition\<close>

text \<open>
  A recognition that fails after one poll: the blob is deleted, and the target opened,
  before \<open>operation.result()\<close> raises.
\<close>

theorem failed_recognition_deletes_blob:
  "transcribe (example_env 50 Failed) ''a.wav'' ''a.srt''
     = Some ([Initiate 100, Progress ''upload'' 0, TransmitChunk, Progress ''upload'' 1,
              Progress ''upload'' 1, Recognize, Poll, Progress ''transcribe'' (1 / 2), Poll,
              DeleteBlob, OpenTarget],
             Some GoogleAPICallError)"
  by (simp add: transcribe_def upload_phase_def example_env_def upload_loop.simps poll_loop.simps
      chunked_transmit_def CHUNK_SIZE_def)

text \<open>
  A call that ends with the recognition error ends right after the last poll, the
  deletion of the blob and the opening of the target.
\<close>

lemma recognition_error_trace:
  assumes "transcribe e src tgt = Some (tr, Some GoogleAPICallError)"
  shows "\<exists>pre. tr = pre @ [Poll, DeleteBlob, OpenTarget]"
  using assms
proof (cases rule: transcribe_cases)
  case missing
  then show ?thesis by simp
next
  case (upload_failed source_size err)
  from upload_phase_result [OF upload_failed(2)] upload_failed(3)
  show ?thesis by auto
next
  case (bad_wave source_size)
  then show ?thesis by simp
next
  case (unwritable source_size tr1 tr2 outcome)
  then show ?thesis by simp
next
  case (failed source_size tr1 tr2)
  from poll_loop_result [OF failed(3)] obtain evs where "tr2 = [Recognize] @ evs @ [Poll]"
    by auto
  then have "tr = (tr1 @ [Recognize] @ evs) @ [Poll, DeleteBlob, OpenTarget]"
    using failed(5) by simp
  then show ?thesis by blast
next
  case (succeeded source_size tr1 tr2 results ls)
  from write_results_error [OF succeeded(5)] show ?thesis by simp
qed

text \<open>
  Claim C4, as the code has it. Let the source exist, the upload complete and the frame
  rate be read, and let the operation report failure at poll \<open>n\<close>, having been running
  at all polls before. Then the call returns, and it has done this, in order: the
  upload, the recognition request, the polls with their progress events, the last poll,
  and the deletion of the blob. It then ends with the recognition error of
  \<open>operation.result()\<close>, after opening the target, or with the error of \<open>open\<close> when
  the target cannot be opened. In both cases the blob has been deleted. And any call
  that ends with the recognition error ends right after the last poll, the deletion of
  the blob and the opening of the target.
\<close>

theorem recognition_failure_after_delete:
  assumes "files e src = Some source_size"
    and "upload_phase (transmit e) source_size = Some (tr1, None)"
    and "frame_rate e src = Some rate"
    and "\<forall>k<n. operation e k = Running (p k)"
    and "operation e n = Done Failed"
  shows "transcribe e src tgt =
      Some (tr1 @ [Recognize]
              @ concat (map (\<lambda>k. [Poll, Progress ''transcribe'' (of_int (p k) * (1 / 100))])
                            [0..<n])
              @ [Poll, DeleteBlob]
              @ (if target_writable e tgt then [OpenTarget] else []),
            Some (if target_writable e tgt then GoogleAPICallError else OSError))
    \<and> (transcribe e' src' tgt' = Some (tr', Some GoogleAPICallError)
        \<longrightarrow> (\<exists>pre. tr' = pre @ [Poll, DeleteBlob, OpenTarget]))"
proof -
  have polls: "poll_loop (operation e) 0 [Recognize] =
      Some ([Recognize]
              @ concat (map (\<lambda>k. [Poll, Progress ''transcribe'' (of_int (p k) * (1 / 100))])
                            [0..<n])
              @ [Poll], Failed)"
    by (rule poll_loop_from_start [OF assms(4,5)])
  have run: "transcribe e src tgt =
      Some (tr1 @ [Recognize]
              @ concat (map (\<lambda>k. [Poll, Progress ''transcribe'' (of_int (p k) * (1 / 100))])
                            [0..<n])
              @ [Poll, DeleteBlob]
              @ (if target_writable e tgt then [OpenTarget] else []),
            Some (if target_writable e tgt then GoogleAPICallError else OSError))"
    unfolding transcribe_def by (simp add: assms(1,2,3) polls)
  show ?thesis using run recognition_error_trace [of e' src' tgt' tr'] by blast
qed

text \<open>
  A recognition found at 80 percent by the first poll and failed by the second, with a
  target that can be opened and with one that cannot.
\<close>

theorem recognition_failure_after_delete_witness:
  "transcribe (example_env 80 Failed) ''a.wav'' ''a.srt''
     = Some ([Initiate 100, Progress ''upload'' 0, TransmitChunk, Progress ''upload'' 1,
              Progress ''upload'' 1, Recognize, Poll, Progress ''transcribe'' (4 / 5), Poll,
              DeleteBlob, OpenTarget],
             Some GoogleAPICallError)
   \<and> transcribe ((example_env 80 Failed)\<lparr>target_writable := (\<lambda>_. False)\<rparr>) ''a.wav'' ''a.srt''
     = Some ([Initiate 100, Progress ''upload'' 0, TransmitChunk, Progress ''upload'' 1,
              Progress ''upload'' 1, Recognize, Poll, Progress ''transcribe'' (4 / 5), Poll,
              DeleteBlob],
             Some OSError)
   \<and> (\<exists>pre. [Initiate 100, Progress ''upload'' 0, TransmitChunk, Progress ''upload'' 1,
              Progress ''upload'' 1, Recognize, Poll, Progress ''transcribe'' (4 / 5), Poll,
              DeleteBlob, OpenTarget] = pre @ [Poll, DeleteBlob, OpenTarget])"
proof -
  let ?e = "example_env 80 Failed"
  let ?e' = "(example_env 80 Failed)\<lparr>target_writable := (\<lambda>_. False)\<rparr>"
  let ?tr1 = "[Initiate 100, Progress ''upload'' 0, TransmitChunk, Progress ''upload'' 1,
              Progress ''upload'' 1]"
  have up: "upload_phase (chunked_transmit CHUNK_SIZE) 100 = Some (?tr1, None)"
    by (simp add: upload_phase_def upload_loop.simps chunked_transmit_def CHUNK_SIZE_def)
  have f: "files ?e ''a.wav'' = Some 100" "files ?e' ''a.wav'' = Some 100"
    by (simp_all add: example_env_def)
  have u: "upload_phase (transmit ?e) 100 = Some (?tr1, None)"
    "upload_phase (transmit ?e') 100 = Some (?tr1, None)"
    using up by (simp_all add: example_env_def)
  have w: "frame_rate ?e ''a.wav'' = Some 16000" "frame_rate ?e' ''a.wav'' = Some 16000"
    by (simp_all add: example_env_def)
  have r: "\<forall>k<1. operation ?e k = Running ((\<lambda>_. 80) k)"
    "\<forall>k<1. operation ?e' k = Running ((\<lambda>_. 80) k)"
    by (simp_all add: example_env_def)
  have d: "operation ?e 1 = Done Failed" "operation ?e' 1 = Done Failed"
    by (simp_all add: example_env_def)
  have t: "target_writable ?e ''a.srt''" "\<not> target_writable ?e' ''a.srt''"
    by (simp_all add: example_env_def)
  from recognition_failure_after_delete [OF f(1) u(1) w(1) r(1) d(1), of "''a.srt''"] t(1)
  have one: "transcribe ?e ''a.wav'' ''a.srt''
     = Some (?tr1 @ [Recognize, Poll, Progress ''transcribe'' (4 / 5), Poll,
              DeleteBlob, OpenTarget], Some GoogleAPICallError)"
    by simp
  from recognition_failure_after_delete [OF f(2) u(2) w(2) r(2) d(2), of "''a.srt''"] t(2)
  have two: "transcribe ?e' ''a.wav'' ''a.srt''
     = Some (?tr1 @ [Recognize, Poll, Progress ''transcribe'' (4 / 5), Poll,
              DeleteBlob], Some OSError)"
    by simp
  from recognition_failure_after_delete
         [OF f(1) u(1) w(1) r(1) d(1), of "''a.srt''" ?e "''a.wav''" "''a.srt''"
            "?tr1 @ [Recognize, Poll, Progress ''transcribe'' (4 / 5), Poll, DeleteBlob, OpenTarget]"]
       one
  have three: "\<exists>pre. ?tr1 @ [Recognize, Poll, Progress ''transcribe'' (4 / 5), Poll,
              DeleteBlob, OpenTarget] = pre @ [Poll, DeleteBlob, OpenTarget]"
    by blast
  from one two three show ?thesis by simp
qed

subsection \<open>Progress of the two phases\<close>



lemma poll_progress:
  assumes "poll_loop op 0 [Recognize] = Some (tr2, out)"
  shows "progress_of ''upload'' tr2 = []"
  using poll_loop_result [OF assms] by (auto simp add: progress_of_append)



lemma example_run:
  "transcribe (example_env percent (Succeeded [])) ''a.wav'' ''a.srt''
     = Some ([Initiate 100, Progress ''upload'' 0, TransmitChunk, Progress ''upload'' 1,
              Progress ''upload'' 1, Recognize, Poll,
              Progress ''transcribe'' (of_int percent * (1 / 100)), Poll,
              DeleteBlob, OpenTarget],
             None)"
  by (simp add: transcribe_def upload_phase_def example_env_def upload_loop.simps poll_loop.simps
      chunked_transmit_def CHUNK_SIZE_def write_results_def finish_def init_state_def)



subsection \<open>Events of a chunked upload\<close>

lemma chunks_cover:
  fixes c n :: nat
  assumes "0 < c"
  shows "n \<le> ((n + c - 1) div c) * c"
proof -
  have "n + c - 1 = ((n + c - 1) div c) * c + (n + c - 1) mod c" by simp
  moreover have "(n + c - 1) mod c \<le> c - 1" using assms by (simp add: less_Suc_eq_le [symmetric])
  ultimately show ?thesis using assms by linarith
qed

lemma chunked_upload_phase:
  assumes "0 < c" "0 < source_size"
  shows "upload_phase (chunked_transmit c) source_size =
     Some ([Initiate source_size, Progress ''upload'' 0]
           @ concat (map (\<lambda>k. [TransmitChunk,
                                Progress ''upload''
                                  (of_nat (min (k * c) source_size) / of_nat source_size)])
                       [1..<Suc ((source_size + c - 1) div c)])
           @ [Progress ''upload'' 1],
           None)"
proof -
  let ?r0 = "\<lparr>bytes_uploaded = 0, total_bytes = source_size, finished = False\<rparr>"
  have "upload_loop (chunked_transmit c) ?r0 [Initiate source_size, Progress ''upload'' 0] =
      Some ([Initiate source_size, Progress ''upload'' 0]
            @ concat (map (\<lambda>k. [TransmitChunk,
                                Progress ''upload''
                                  (of_nat (min (bytes_uploaded ?r0 + k * c) (total_bytes ?r0))
                                   / of_nat (total_bytes ?r0))])
                       [1..<Suc ((source_size + c - 1) div c)]),
            Inr (?r0\<lparr>bytes_uploaded := total_bytes ?r0, finished := True\<rparr>))"
    by (rule chunked_run [OF assms(1)]) (simp_all add: assms(2))
  then show ?thesis
    by (simp add: upload_phase_def del: upt_Suc)
qed

text \<open>
  Claim C5, as the code has it. For a source that is not empty, sent in chunks of
  \<open>c\<close> bytes, the upload is initiated, the callback receives 0, then after each chunk
  the share of the bytes sent so far, then 1. The upload ends; the share after the last
  chunk is already 1, so the closing 1 repeats it. In a whole call these are all the
  upload fractions: none follows the closing 1.
\<close>

theorem chunked_upload_events:
  assumes "0 < c" "0 < source_size"
  shows "upload_phase (chunked_transmit c) source_size =
     Some ([Initiate source_size, Progress ''upload'' 0]
           @ concat (map (\<lambda>k. [TransmitChunk,
                                Progress ''upload''
                                  (of_nat (min (k * c) source_size) / of_nat source_size)])
                       [1..<Suc ((source_size + c - 1) div c)])
           @ [Progress ''upload'' 1],
           None)
    \<and> (of_nat (min (((source_size + c - 1) div c) * c) source_size) / of_nat source_size = (1::rat))
    \<and> (transmit e = chunked_transmit c \<and> files e src = Some source_size
         \<and> transcribe e src tgt = Some (tr, res)
       \<longrightarrow> progress_of ''upload'' tr
             = 0 # map (\<lambda>k. of_nat (min (k * c) source_size) / of_nat source_size)
                     [1..<Suc ((source_size + c - 1) div c)] @ [1])"
proof -
  let ?g = "\<lambda>k. (of_nat (min (k * c) source_size) / of_nat source_size :: rat)"
  let ?ks = "[1..<Suc ((source_size + c - 1) div c)]"
  let ?tr1 = "[Initiate source_size, Progress ''upload'' 0]
           @ concat (map (\<lambda>k. [TransmitChunk, Progress ''upload'' (?g k)]) ?ks)
           @ [Progress ''upload'' 1]"
  note up = chunked_upload_phase [OF assms]
  have full: "min (((source_size + c - 1) div c) * c) source_size = source_size"
    using chunks_cover [OF assms(1), of source_size] by simp
  have one: "of_nat (min (((source_size + c - 1) div c) * c) source_size) / of_nat source_size = (1::rat)"
    unfolding full using assms(2) by simp
  have p1: "progress_of ''upload'' ?tr1 = 0 # map ?g ?ks @ [1]"
    by (simp add: progress_of_append progress_of_chunks del: upt_Suc)
  have whole: "progress_of ''upload'' tr = 0 # map ?g ?ks @ [1]"
    if t: "transmit e = chunked_transmit c" and f: "files e src = Some source_size"
      and run: "transcribe e src tgt = Some (tr, res)"
    using run
  proof (cases rule: transcribe_cases)
    case missing
    with f show ?thesis by simp
  next
    case (upload_failed s err)
    with f t up show ?thesis by simp
  next
    case (bad_wave s)
    with f t up have "tr = ?tr1" by simp
    with p1 show ?thesis by simp
  next
    case (unwritable s tr1 tr2 outcome)
    with f t up have "tr = ?tr1 @ tr2 @ [DeleteBlob]" by simp
    with p1 poll_progress [OF unwritable(3)] show ?thesis
      by (simp add: progress_of_append del: upt_Suc)
  next
    case (failed s tr1 tr2)
    with f t up have "tr = ?tr1 @ tr2 @ [DeleteBlob, OpenTarget]" by simp
    with p1 poll_progress [OF failed(3)] show ?thesis
      by (simp add: progress_of_append del: upt_Suc)
  next
    case (succeeded s tr1 tr2 results ls)
    with f t up have "tr = ?tr1 @ tr2 @ [DeleteBlob, OpenTarget] @ map WriteLine ls" by simp
    with p1 poll_progress [OF succeeded(3)] show ?thesis
      by (simp add: progress_of_append progress_of_WriteLine del: upt_Suc)
  qed
  show ?thesis using up one whole by blast
qed

theorem chunked_upload_events_witness:
  "upload_phase (chunked_transmit 40) 100 =
     Some ([Initiate 100, Progress ''upload'' 0, TransmitChunk, Progress ''upload'' (2 / 5),
            TransmitChunk, Progress ''upload'' (4 / 5), TransmitChunk, Progress ''upload'' 1,
            Progress ''upload'' 1], None)"
proof -
  have h: "(0::nat) < 40" "(0::nat) < 100" by simp_all
  have ks: "[1..<Suc ((100 + 40 - 1) div 40)] = [1, 2, 3]" by (simp add: upt_rec)
  from chunked_upload_events [OF h] show ?thesis
    unfolding ks by simp
qed

text \<open>
  A source of 100 bytes goes in one chunk: the callback receives 1 after the chunk, and
  then the closing 1, an upload event after the fraction has reached 1.
\<close>

theorem upload_repeats_final_fraction:
  "upload_phase (chunked_transmit CHUNK_SIZE) 100 =
     Some ([Initiate 100, Progress ''upload'' 0, TransmitChunk, Progress ''upload'' 1,
            Progress ''upload'' 1], None)"
  by (simp add: upload_phase_def upload_loop.simps chunked_transmit_def CHUNK_SIZE_def)

subsection \<open>Arguments of the callback\<close>

lemma chunked_within_total:
  "\<forall>r r'. chunked_transmit c r = Some r' \<longrightarrow> bytes_uploaded r' \<le> total_bytes r'"
  by (auto simp add: chunked_transmit_def Let_def)

text \<open>
  Claim C7, as the code has it. The phase passed to the callback is always
  \<open>upload\<close> or \<open>transcribe\<close>. The fraction is passed on as computed, so it lies in
  [0, 1] when the transport never reports more bytes uploaded than the total and the
  operation reports a \<open>progress_percent\<close> between 0 and 100.
\<close>

theorem progress_arguments:
  assumes "transcribe e src tgt = Some (tr, res)"
  shows "(\<forall>phase f. Progress phase f \<in> set tr \<longrightarrow> phase = ''upload'' \<or> phase = ''transcribe'')
    \<and> ((\<forall>r r'. transmit e r = Some r' \<longrightarrow> bytes_uploaded r' \<le> total_bytes r')
        \<and> (\<forall>n p. operation e n = Running p \<longrightarrow> 0 \<le> p \<and> p \<le> 100)
       \<longrightarrow> (\<forall>phase f. Progress phase f \<in> set tr \<longrightarrow> 0 \<le> f \<and> f \<le> 1))"
proof -
  let ?H = "(\<forall>r r'. transmit e r = Some r' \<longrightarrow> bytes_uploaded r' \<le> total_bytes r')
        \<and> (\<forall>n p. operation e n = Running p \<longrightarrow> 0 \<le> p \<and> p \<le> 100)"
  have up: "list_all known_phase tr1 \<and> (?H \<longrightarrow> list_all good_event tr1)"
    if "upload_phase (transmit e) s = Some (tr1, r)" for s tr1 r
    using upload_phase_result [OF that]
    by (auto simp add: known_phase_def good_event_def)
  have po: "list_all known_phase tr2 \<and> (?H \<longrightarrow> list_all good_event tr2)"
    if "poll_loop (operation e) 0 [Recognize] = Some (tr2, out)" for tr2 out
    using poll_loop_result [OF that]
    by (auto simp add: known_phase_def good_event_def)
  have wl: "list_all known_phase (map WriteLine ls) \<and> list_all good_event (map WriteLine ls)" for ls
    by (induction ls) (simp_all add: known_phase_def good_event_def)
  have all: "list_all known_phase tr \<and> (?H \<longrightarrow> list_all good_event tr)"
    using assms
  proof (cases rule: transcribe_cases)
    case missing
    then show ?thesis by simp
  next
    case (upload_failed s err)
    from up [OF upload_failed(2)] show ?thesis .
  next
    case (bad_wave s)
    from up [OF bad_wave(2)] show ?thesis .
  next
    case (unwritable s tr1 tr2 outcome)
    from up [OF unwritable(2)] po [OF unwritable(3)] unwritable(5)
    show ?thesis by (simp add: known_phase_def good_event_def)
  next
    case (failed s tr1 tr2)
    from up [OF failed(2)] po [OF failed(3)] failed(5)
    show ?thesis by (simp add: known_phase_def good_event_def)
  next
    case (succeeded s tr1 tr2 results ls)
    from up [OF succeeded(2)] po [OF succeeded(3)] wl [of ls] succeeded(6)
    show ?thesis by (simp add: known_phase_def good_event_def)
  qed
  have k: "phase = ''upload'' \<or> phase = ''transcribe''" if "Progress phase f \<in> set tr" for phase f
    using all that by (auto simp add: list_all_iff known_phase_def)
  have g: "0 \<le> f \<and> f \<le> 1" if "?H" "Progress phase f \<in> set tr" for phase f
    using all that by (auto simp add: list_all_iff good_event_def)
  show ?thesis using k g by blast
qed

theorem progress_arguments_witness:
  "list_all good_event [Initiate 100, Progress ''upload'' 0, TransmitChunk,
              Progress ''upload'' 1, Progress ''upload'' 1, Recognize, Poll,
              Progress ''transcribe'' (of_int 50 * (1 / 100)), Poll, DeleteBlob, OpenTarget]"
proof -
  let ?e = "example_env 50 (Succeeded [])"
  let ?tr = "[Initiate 100, Progress ''upload'' 0, TransmitChunk,
              Progress ''upload'' 1, Progress ''upload'' 1, Recognize, Poll,
              Progress ''transcribe'' (of_int 50 * (1 / 100)), Poll, DeleteBlob, OpenTarget]"
  have h1: "\<forall>r r'. transmit ?e r = Some r' \<longrightarrow> bytes_uploaded r' \<le> total_bytes r'"
    using chunked_within_total [of CHUNK_SIZE] by (simp add: example_env_def)
  have h2: "\<forall>n p. operation ?e n = Running p \<longrightarrow> 0 \<le> p \<and> p \<le> 100"
    by (simp add: example_env_def)
  from progress_arguments [OF example_run [of 50]] h1 h2
  have "\<forall>phase f. Progress phase f \<in> set ?tr
      \<longrightarrow> (phase = ''upload'' \<or> phase = ''transcribe'') \<and> 0 \<le> f \<and> f \<le> 1"
    by blast
  then show ?thesis
    by (simp add: good_event_def)
qed

text \<open>
  An operation that reports 150 percent: the callback receives the fraction 3/2.
\<close>

theorem progress_fraction_above_one:
  "map_option (\<lambda>(tr, res). (progress_of ''transcribe'' tr, list_all good_event tr, res))
     (transcribe (example_env 150 (Succeeded [])) ''a.wav'' ''a.srt'')
     = Some ([3 / 2], False, None)"
  by (simp add: example_run good_event_def)

end
